theory Spec2Isabelle
  imports Complex_Main "HOL-Library.Word" "HOL-Library.List_Lexorder" "HOL-Library.Sublist"
begin

section \<open>Host values\<close>

text \<open>
  A JavaScript string is a sequence of 16-bit code units. IndexedDB compares string keys
  code unit by code unit, a proper prefix being smaller; that is the lexicographic order
  on lists of \<open>16 word\<close> (unsigned comparison of the units).
\<close>

type_synonym jsstring = "16 word list"

definition js :: "string \<Rightarrow> jsstring" where
  "js s = map (\<lambda>c. word_of_nat (of_char c)) s"

text \<open>\<open>new Date(value)\<close> for a time value in milliseconds since the epoch.\<close>

datatype date = Date int

text \<open>
  An optional string parameter as the caller passes it: omitted (\<open>undefined\<close>),
  \<open>null\<close>, or a string.
\<close>

datatype path_arg = Undefined | Null | Str jsstring

text \<open>The default parameter \<open>pathname = null\<close>: only \<open>undefined\<close> takes the default.\<close>

fun default_null :: "path_arg \<Rightarrow> path_arg" where
  "default_null Undefined = Null"
| "default_null a = a"

text \<open>\<open>pathname ?? window.location.pathname\<close>: the right operand only for null or undefined.\<close>

fun nullish_or :: "path_arg \<Rightarrow> jsstring \<Rightarrow> jsstring" where
  "nullish_or (Str s) d = s"
| "nullish_or Null d = d"
| "nullish_or Undefined d = d"

text \<open>
  What the code reads from the host at a call: \<open>Date.now()\<close> and
  \<open>window.location.pathname\<close>.
\<close>

record host =
  date_now :: int
  location_pathname :: jsstring


section \<open>The storage engine\<close>

text \<open>
  The engine is what the code consumes through \<open>idb\<close>. An object store holds its records
  in ascending key order, one record per key; \<open>put\<close> overwrites. The values this code
  stores are the numbers returned by \<open>Date.now()\<close>.
\<close>

type_synonym objstore = "(jsstring \<times> int) list"

fun os_put :: "jsstring \<Rightarrow> int \<Rightarrow> objstore \<Rightarrow> objstore" where
  "os_put k v [] = [(k, v)]"
| "os_put k v ((k', v') # rs) =
     (if k = k' then (k, v) # rs
      else if k < k' then (k, v) # (k', v') # rs
      else (k', v') # os_put k v rs)"

definition os_get :: "objstore \<Rightarrow> jsstring \<Rightarrow> int option" where
  "os_get rs k = map_of rs k"

definition key_ordered :: "objstore \<Rightarrow> bool" where
  "key_ordered rs = sorted_wrt (<) (map fst rs)"

text \<open>\<open>IDBKeyRange.bound(lower, upper)\<close>: a closed range.\<close>

record key_range =
  lower :: jsstring
  upper :: jsstring

definition in_range :: "key_range \<Rightarrow> jsstring \<Rightarrow> bool" where
  "in_range r k = (lower r \<le> k \<and> k \<le> upper r)"

text \<open>
  \<open>store.openCursor(range)\<close>: the records the cursor visits, in key order; the cursor is
  \<open>null\<close> when none is left.
\<close>

fun openCursor :: "key_range option \<Rightarrow> objstore \<Rightarrow> objstore" where
  "openCursor None rs = rs"
| "openCursor (Some r) rs = filter (\<lambda>(k, v). in_range r k) rs"

record database =
  db_version :: nat
  db_stores :: "string \<rightharpoonup> objstore"

type_synonym idb = "string \<rightharpoonup> database"

datatype idb_error = VersionError | NotFoundError | InvalidStateError

text \<open>The \<open>upgrade\<close> callback of \<open>#openDB\<close>: create the store unless the database has it.\<close>

definition upgrade :: "string \<Rightarrow> (string \<rightharpoonup> objstore) \<Rightarrow> (string \<rightharpoonup> objstore)" where
  "upgrade sname ss = (case ss sname of None \<Rightarrow> ss(sname \<mapsto> []) | Some rs \<Rightarrow> ss)"

text \<open>
  \<open>openDB(name, version, {upgrade})\<close>: a database that does not exist is created at the
  requested version, an older one is upgraded (both run the callback), one at the requested
  version is opened as it is, and a newer one rejects with a version error. The connection is
  identified by the name of the database it is connected to.
\<close>

definition idb_open :: "string \<Rightarrow> nat \<Rightarrow> string \<Rightarrow> idb \<Rightarrow> (idb_error + string) \<times> idb" where
  "idb_open name ver sname dbs =
     (case dbs name of
        None \<Rightarrow> (Inr name, dbs(name \<mapsto> \<lparr>db_version = ver, db_stores = upgrade sname Map.empty\<rparr>))
      | Some d \<Rightarrow>
          if ver < db_version d then (Inl VersionError, dbs)
          else if db_version d < ver
            then (Inr name, dbs(name \<mapsto> \<lparr>db_version = ver, db_stores = upgrade sname (db_stores d)\<rparr>))
          else (Inr name, dbs))"

text \<open>The object store a connection reaches under a store name, if the database has it.\<close>

definition store_of :: "string \<Rightarrow> string \<Rightarrow> idb \<Rightarrow> objstore option" where
  "store_of conn sname dbs = (case dbs conn of None \<Rightarrow> None | Some d \<Rightarrow> db_stores d sname)"

text \<open>\<open>db.get(storeName, key)\<close>: \<open>undefined\<close> (here \<open>None\<close>) when there is no record.\<close>

definition idb_get :: "string \<Rightarrow> string \<Rightarrow> jsstring \<Rightarrow> idb \<Rightarrow> idb_error + int option" where
  "idb_get conn sname k dbs =
     (case dbs conn of
        None \<Rightarrow> Inl InvalidStateError
      | Some d \<Rightarrow> (case db_stores d sname of
                    None \<Rightarrow> Inl NotFoundError
                  | Some rs \<Rightarrow> Inr (os_get rs k)))"

text \<open>\<open>db.put(storeName, value, key)\<close>.\<close>

definition idb_put :: "string \<Rightarrow> string \<Rightarrow> int \<Rightarrow> jsstring \<Rightarrow> idb \<Rightarrow> idb_error + idb" where
  "idb_put conn sname v k dbs =
     (case dbs conn of
        None \<Rightarrow> Inl InvalidStateError
      | Some d \<Rightarrow> (case db_stores d sname of
                    None \<Rightarrow> Inl NotFoundError
                  | Some rs \<Rightarrow>
                      Inr (dbs(conn \<mapsto> d\<lparr>db_stores := (db_stores d)(sname \<mapsto> os_put k v rs)\<rparr>))))"

text \<open>
  \<open>db.transaction(storeName, 'readonly').objectStore(storeName).openCursor(range)\<close>.
\<close>

definition idb_cursor :: "string \<Rightarrow> string \<Rightarrow> key_range option \<Rightarrow> idb \<Rightarrow> idb_error + objstore" where
  "idb_cursor conn sname r dbs =
     (case dbs conn of
        None \<Rightarrow> Inl InvalidStateError
      | Some d \<Rightarrow> (case db_stores d sname of
                    None \<Rightarrow> Inl NotFoundError
                  | Some rs \<Rightarrow> Inr (openCursor r rs)))"


section \<open>The tracker\<close>

text \<open>
  The private fields of \<open>TrackPagesRead\<close>. \<open>db\<close> is the cached promise of \<open>#openDB\<close>:
  \<open>None\<close> for \<open>null\<close>, otherwise what the promise settled with, a connection or the
  rejection.
\<close>

record tracker =
  dbName :: string
  dbVersion :: nat
  storeName :: string
  db :: "(idb_error + string) option"

record config =
  c_dbName :: "string option"
  c_dbVersion :: "nat option"
  c_storeName :: "string option"

text \<open>\<open>config.field || this.#field\<close>: a missing, empty or zero field keeps the current one.\<close>

definition or_str :: "string option \<Rightarrow> string \<Rightarrow> string" where
  "or_str a d = (case a of None \<Rightarrow> d | Some s \<Rightarrow> if s = [] then d else s)"

definition or_num :: "nat option \<Rightarrow> nat \<Rightarrow> nat" where
  "or_num a d = (case a of None \<Rightarrow> d | Some n \<Rightarrow> if n = 0 then d else n)"

definition setConfig :: "config \<Rightarrow> tracker \<Rightarrow> tracker" where
  "setConfig c tr =
     tr\<lparr>dbName := or_str (c_dbName c) (dbName tr),
        dbVersion := or_num (c_dbVersion c) (dbVersion tr),
        storeName := or_str (c_storeName c) (storeName tr)\<rparr>"

definition field_defaults :: tracker where
  "field_defaults = \<lparr>dbName = ''track-pages-read'', dbVersion = 1, storeName = ''paths'', db = None\<rparr>"

definition no_config :: config where
  "no_config = \<lparr>c_dbName = None, c_dbVersion = None, c_storeName = None\<rparr>"

definition new_TrackPagesRead :: "config \<Rightarrow> tracker" where
  "new_TrackPagesRead c = setConfig c field_defaults"

text \<open>\<open>#openDB\<close>: open on the first call, return the cached promise afterwards.\<close>

definition openDB :: "tracker \<times> idb \<Rightarrow> (idb_error + string) \<times> tracker \<times> idb" where
  "openDB s =
     (case s of (tr, dbs) \<Rightarrow>
        (case db tr of
           Some p \<Rightarrow> (p, tr, dbs)
         | None \<Rightarrow>
             (case idb_open (dbName tr) (dbVersion tr) (storeName tr) dbs of
                (p, dbs') \<Rightarrow> (p, tr\<lparr>db := Some p\<rparr>, dbs'))))"

text \<open>
  \<open>result ? new Date(result) : null\<close>: \<open>undefined\<close> and the number \<open>0\<close> are falsy.
\<close>

definition date_or_null :: "int option \<Rightarrow> date option" where
  "date_or_null result =
     (case result of None \<Rightarrow> None | Some v \<Rightarrow> if v \<noteq> 0 then Some (Date v) else None)"

definition isRead :: "host \<Rightarrow> path_arg \<Rightarrow> tracker \<times> idb \<Rightarrow> (idb_error + date option) \<times> tracker \<times> idb" where
  "isRead h pathname s =
     (case openDB s of
        (Inl e, s') \<Rightarrow> (Inl e, s')
      | (Inr conn, tr, dbs) \<Rightarrow>
          (case idb_get conn (storeName tr) (nullish_or (default_null pathname) (location_pathname h)) dbs of
             Inl e \<Rightarrow> (Inl e, tr, dbs)
           | Inr result \<Rightarrow> (Inr (date_or_null result), tr, dbs)))"

definition markAsRead :: "host \<Rightarrow> path_arg \<Rightarrow> tracker \<times> idb \<Rightarrow> (idb_error + unit) \<times> tracker \<times> idb" where
  "markAsRead h pathname s =
     (let key = nullish_or (default_null pathname) (location_pathname h);
          val = date_now h
      in case openDB s of
           (Inl e, s') \<Rightarrow> (Inl e, s')
         | (Inr conn, tr, dbs) \<Rightarrow>
             (case idb_put conn (storeName tr) val key dbs of
                Inl e \<Rightarrow> (Inl e, tr, dbs)
              | Inr dbs' \<Rightarrow> (Inr (), tr, dbs')))"

text \<open>
  The two generators. A generator's state is its cursor, the records still to visit; each
  \<open>next()\<close> yields the entry under the cursor and advances it with \<open>cursor.continue()\<close>.
\<close>

record entry =
  pathname :: jsstring
  date :: date


definition getAll :: "tracker \<times> idb \<Rightarrow> (idb_error + objstore) \<times> tracker \<times> idb" where
  "getAll s =
     (case openDB s of
        (Inl e, s') \<Rightarrow> (Inl e, s')
      | (Inr conn, tr, dbs) \<Rightarrow> (idb_cursor conn (storeName tr) None dbs, tr, dbs))"

definition getAllByPath :: "jsstring \<Rightarrow> tracker \<times> idb \<Rightarrow> (idb_error + objstore) \<times> tracker \<times> idb" where
  "getAllByPath p s =
     (let range = \<lparr>lower = p, upper = p @ [0xFFFF]\<rparr>
      in case openDB s of
           (Inl e, s') \<Rightarrow> (Inl e, s')
         | (Inr conn, tr, dbs) \<Rightarrow> (idb_cursor conn (storeName tr) (Some range) dbs, tr, dbs))"

text \<open>\<open>for await (const p of gen) pages.push(p)\<close>: the entries a consumer collects.\<close>

text \<open>
  \<open>for (const path of paths) await tracker.markAsRead(path)\<close>, as the tests write several
  paths; each call comes with the clock reading of its moment, and a rejection ends the loop.
\<close>

fun mark_each :: "jsstring \<Rightarrow> (int \<times> jsstring) list \<Rightarrow> tracker \<times> idb \<Rightarrow> (idb_error + unit) \<times> tracker \<times> idb" where
  "mark_each loc [] s = (Inr (), s)"
| "mark_each loc ((t, p) # ws) s =
     (case markAsRead \<lparr>date_now = t, location_pathname = loc\<rparr> (Str p) s of
        (Inl e, s') \<Rightarrow> (Inl e, s')
      | (Inr u, s') \<Rightarrow> mark_each loc ws s')"




section \<open>The throttle gate\<close>

text \<open>
  \<open>#throttle(func, limit)\<close> returns a closure over \<open>lastCall\<close> and \<open>timeout\<close>. The host's
  timers are part of the state: \<open>setTimeout\<close> enters a timer in the host's table and returns
  its handle, an integer greater than zero; \<open>clearTimeout\<close> removes it; a timer that runs is
  removed and its callback called. A timer records the delay it was set with, the clock
  reading when it was set, and the \<open>args\<close> its callback closed over.
\<close>

record 'a timer =
  handle :: nat
  set_at :: int
  delay :: int
  bound_args :: 'a

record 'a gate =
  lastCall :: int
  timeout :: "nat option"
  pending :: "'a timer list"
  fresh :: nat

definition new_gate :: "'a gate" where
  "new_gate = \<lparr>lastCall = 0, timeout = None, pending = [], fresh = 1\<rparr>"

text \<open>The two places that call \<open>func.apply(this, args)\<close>, with the clock reading and the arguments.\<close>

datatype 'a run = Leading int 'a | Trailing int 'a

text \<open>\<open>if (timeout)\<close>: \<open>null\<close> and \<open>0\<close> are falsy.\<close>

definition truthy :: "nat option \<Rightarrow> bool" where
  "truthy t = (case t of None \<Rightarrow> False | Some n \<Rightarrow> n \<noteq> 0)"

definition setTimeout :: "int \<Rightarrow> int \<Rightarrow> 'a \<Rightarrow> 'a gate \<Rightarrow> nat \<times> 'a gate" where
  "setTimeout now ms args g =
     (fresh g,
      g\<lparr>pending := pending g @ [\<lparr>handle = fresh g, set_at = now, delay = ms, bound_args = args\<rparr>],
        fresh := Suc (fresh g)\<rparr>)"

definition clearTimeout :: "nat option \<Rightarrow> 'a gate \<Rightarrow> 'a gate" where
  "clearTimeout t g =
     (case t of None \<Rightarrow> g | Some h \<Rightarrow> g\<lparr>pending := filter (\<lambda>x. handle x \<noteq> h) (pending g)\<rparr>)"

text \<open>The returned closure, called at clock reading \<open>now\<close> with \<open>args\<close>.\<close>

definition gated :: "int \<Rightarrow> int \<Rightarrow> 'a \<Rightarrow> 'a gate \<Rightarrow> 'a run list \<times> 'a gate" where
  "gated limit now args g =
     (let remaining = limit - (now - lastCall g)
      in if remaining \<le> 0 then
           ([Leading now args],
            (if truthy (timeout g) then (clearTimeout (timeout g) g)\<lparr>timeout := None\<rparr> else g)
              \<lparr>lastCall := now\<rparr>)
         else if \<not> truthy (timeout g) then
           (case setTimeout now remaining args g of
              (h, g') \<Rightarrow> ([], g'\<lparr>timeout := Some h\<rparr>))
         else ([], g))"

text \<open>The host runs the timer with handle \<open>h\<close> at clock reading \<open>now\<close>, if it is still live.\<close>

definition timer_fires :: "nat \<Rightarrow> int \<Rightarrow> 'a gate \<Rightarrow> 'a run list \<times> 'a gate" where
  "timer_fires h now g =
     (case find (\<lambda>x. handle x = h) (pending g) of
        None \<Rightarrow> ([], g)
      | Some t \<Rightarrow>
          ([Trailing now (bound_args t)],
           g\<lparr>pending := filter (\<lambda>x. handle x \<noteq> h) (pending g), lastCall := now, timeout := None\<rparr>))"

datatype 'a event = Call int 'a | Fire nat int

fun event_time :: "'a event \<Rightarrow> int" where
  "event_time (Call now args) = now"
| "event_time (Fire h now) = now"

fun step :: "int \<Rightarrow> 'a event \<Rightarrow> 'a gate \<Rightarrow> 'a run list \<times> 'a gate" where
  "step limit (Call now args) g = gated limit now args g"
| "step limit (Fire h now) g = timer_fires h now g"

fun run_gate :: "int \<Rightarrow> 'a event list \<Rightarrow> 'a gate \<Rightarrow> 'a run list \<times> 'a gate" where
  "run_gate limit [] g = ([], g)"
| "run_gate limit (e # es) g =
     (case step limit e g of
        (out, g') \<Rightarrow> (case run_gate limit es g' of (outs, g'') \<Rightarrow> (out @ outs, g'')))"

text \<open>A burst of calls, each with its clock reading and arguments.\<close>

definition calls :: "(int \<times> 'a) list \<Rightarrow> 'a event list" where
  "calls cs = map (\<lambda>(now, args). Call now args) cs"

text \<open>The clock readings of the leading-edge executions in a log.\<close>

fun leading_times :: "'a run list \<Rightarrow> int list" where
  "leading_times [] = []"
| "leading_times (Leading now args # xs) = now # leading_times xs"
| "leading_times (Trailing now args # xs) = leading_times xs"

text \<open>
  What holds of the closure's variables and the host's table together: \<open>timeout\<close> is
  \<open>null\<close> and no timer of the closure is live, or \<open>timeout\<close> is the handle of the one live
  timer; handles are positive and the host has not handed out \<open>fresh\<close> yet.
\<close>

definition gate_ok :: "'a gate \<Rightarrow> bool" where
  "gate_ok g =
     (0 < fresh g \<and>
      (case timeout g of
         None \<Rightarrow> pending g = []
       | Some h \<Rightarrow> 0 < h \<and> h < fresh g \<and>
           (case pending g of [t] \<Rightarrow> handle t = h | _ \<Rightarrow> False)))"


section \<open>The scroll monitor\<close>










section \<open>Facts about the storage engine\<close>

lemma os_get_put_same: "os_get (os_put k v rs) k = Some v"
  by (induction rs) (auto simp: os_get_def)

lemma os_get_put_other: "k' \<noteq> k \<Longrightarrow> os_get (os_put k v rs) k' = os_get rs k'"
  by (induction rs) (auto simp: os_get_def)

lemma keys_os_put: "fst ` set (os_put k v rs) = insert k (fst ` set rs)"
proof (induction rs)
  case Nil
  show ?case by simp
next
  case (Cons r rs)
  obtain k' v' where r: "r = (k', v')" by (cases r)
  show ?case using Cons.IH by (simp add: r insert_commute)
qed

lemma key_ordered_put: "key_ordered rs \<Longrightarrow> key_ordered (os_put k v rs)"
  unfolding key_ordered_def
proof (induction rs)
  case Nil
  then show ?case by simp
next
  case (Cons r rs)
  obtain k' v' where r: "r = (k', v')" by (cases r)
  show ?case
  proof (cases "k = k'")
    case True
    with Cons.prems r show ?thesis by simp
  next
    case False
    show ?thesis
    proof (cases "k < k'")
      case True
      with Cons.prems r False show ?thesis by auto
    next
      case nl: False
      with False have "k' < k" by simp
      with Cons r False nl show ?thesis
        using keys_os_put[of k v rs] by auto
    qed
  qed
qed

lemma key_ordered_distinct: "key_ordered rs \<Longrightarrow> distinct (map fst rs)"
  unfolding key_ordered_def by (simp add: strict_sorted_iff)

lemma openDB_cached: "openDB s = (p, tr1, dbs1) \<Longrightarrow> db tr1 = Some p"
  by (cases s) (auto simp: openDB_def split: option.splits prod.splits)

lemma openDB_again: "db tr = Some p \<Longrightarrow> openDB (tr, dbs) = (p, tr, dbs)"
  by (simp add: openDB_def)

lemma isRead_open:
  assumes "openDB s = (Inr conn, tr1, dbs1)" and "store_of conn (storeName tr1) dbs1 = Some rs"
  shows "isRead h p s =
     (Inr (date_or_null (os_get rs (nullish_or (default_null p) (location_pathname h)))), tr1, dbs1)"
  using assms by (auto simp: isRead_def idb_get_def store_of_def split: option.splits)

lemma markAsRead_open:
  assumes "openDB s = (Inr conn, tr1, dbs1)" and "store_of conn (storeName tr1) dbs1 = Some rs"
  shows "\<exists>dbs'. markAsRead h p s = (Inr (), tr1, dbs') \<and>
           store_of conn (storeName tr1) dbs' =
             Some (os_put (nullish_or (default_null p) (location_pathname h)) (date_now h) rs)"
  using assms by (auto simp: markAsRead_def idb_put_def store_of_def Let_def split: option.splits)

text \<open>A tracker made with the defaults, on a host that has no database yet.\<close>

lemma openDB_first:
  "openDB (new_TrackPagesRead no_config, Map.empty) =
     (Inr ''track-pages-read'',
      \<lparr>dbName = ''track-pages-read'', dbVersion = 1, storeName = ''paths'',
       db = Some (Inr ''track-pages-read'')\<rparr>,
      [''track-pages-read'' \<mapsto> \<lparr>db_version = 1, db_stores = [''paths'' \<mapsto> []]\<rparr>])"
  by (simp add: openDB_def new_TrackPagesRead_def no_config_def setConfig_def field_defaults_def
      or_str_def or_num_def idb_open_def upgrade_def)

lemma store_first:
  "store_of ''track-pages-read''
     (storeName \<lparr>dbName = ''track-pages-read'', dbVersion = 1, storeName = ''paths'',
                 db = Some (Inr ''track-pages-read'')\<rparr>)
     [''track-pages-read'' \<mapsto> \<lparr>db_version = 1, db_stores = [''paths'' \<mapsto> []]\<rparr>] = Some []"
  by (simp add: store_of_def)

section \<open>Writing a record\<close>

text \<open>
  C8. Whenever the tracker's connection is open and reaches its object store,
  \<open>markAsRead(P)\<close> succeeds, and afterwards the store holds the clock reading of the call
  under the key \<open>P\<close>, whatever it held there before; the record of every other key is what
  it was; and the store, kept in key order, has at most one record for each key.
\<close>

theorem markAsRead_overwrites_one_key:
  assumes "openDB s = (Inr conn, tr1, dbs1)"
    and "store_of conn (storeName tr1) dbs1 = Some rs"
    and "key_ordered rs"
  shows "\<exists>dbs' rs'. markAsRead h (Str P) s = (Inr (), tr1, dbs') \<and>
           store_of conn (storeName tr1) dbs' = Some rs' \<and>
           os_get rs' P = Some (date_now h) \<and>
           (\<forall>k. k \<noteq> P \<longrightarrow> os_get rs' k = os_get rs k) \<and>
           key_ordered rs' \<and> distinct (map fst rs')"
proof -
  from markAsRead_open[OF assms(1,2), of h "Str P"]
  obtain dbs' where m: "markAsRead h (Str P) s = (Inr (), tr1, dbs')"
    and st: "store_of conn (storeName tr1) dbs' = Some (os_put P (date_now h) rs)"
    by auto
  have ko: "key_ordered (os_put P (date_now h) rs)"
    using assms(3) by (rule key_ordered_put)
  show ?thesis
    using m st ko key_ordered_distinct[OF ko]
    by (auto simp: os_get_put_same os_get_put_other)
qed

theorem markAsRead_overwrites_one_key_witness:
  "\<exists>dbs' rs'.
     markAsRead \<lparr>date_now = 1700000000000, location_pathname = js ''/''\<rparr> (Str (js ''/a''))
       (new_TrackPagesRead no_config, Map.empty) =
       (Inr (), \<lparr>dbName = ''track-pages-read'', dbVersion = 1, storeName = ''paths'',
                 db = Some (Inr ''track-pages-read'')\<rparr>, dbs') \<and>
     store_of ''track-pages-read'' ''paths'' dbs' = Some rs' \<and>
     os_get rs' (js ''/a'') = Some 1700000000000 \<and>
     os_get rs' (js ''/b'') = None \<and>
     distinct (map fst rs')"
proof -
  have ko: "key_ordered []" by (simp add: key_ordered_def)
  have ne: "js ''/b'' \<noteq> js ''/a''" by (simp add: js_def)
  from markAsRead_overwrites_one_key[OF openDB_first _ ko,
      of "\<lparr>date_now = 1700000000000, location_pathname = js ''/''\<rparr>" "js ''/a''"]
  obtain dbs' rs' where a: "markAsRead \<lparr>date_now = 1700000000000, location_pathname = js ''/''\<rparr> (Str (js ''/a''))
       (new_TrackPagesRead no_config, Map.empty) =
       (Inr (), \<lparr>dbName = ''track-pages-read'', dbVersion = 1, storeName = ''paths'',
                 db = Some (Inr ''track-pages-read'')\<rparr>, dbs')"
    and b: "store_of ''track-pages-read'' ''paths'' dbs' = Some rs'"
    and c: "os_get rs' (js ''/a'') = Some 1700000000000"
    and d: "\<forall>k. k \<noteq> js ''/a'' \<longrightarrow> os_get rs' k = os_get [] k"
    and e: "distinct (map fst rs')"
    using store_first by auto
  from d ne have "os_get rs' (js ''/b'') = None" by (simp add: os_get_def)
  with a b c e show ?thesis by blast
qed

section \<open>Facts about the operations\<close>

lemmas run_defs =
  openDB_def new_TrackPagesRead_def no_config_def setConfig_def field_defaults_def
  or_str_def or_num_def idb_open_def upgrade_def markAsRead_def isRead_def getAll_def
  getAllByPath_def idb_put_def idb_get_def idb_cursor_def store_of_def os_get_def
  date_or_null_def in_range_def js_def Let_def




lemma mark_each_open:
  assumes "openDB s = (Inr conn, tr1, dbs1)" and "store_of conn (storeName tr1) dbs1 = Some rs"
  shows "\<exists>s' dbs'. mark_each loc ws s = (Inr (), s') \<and>
           openDB s' = (Inr conn, tr1, dbs') \<and>
           store_of conn (storeName tr1) dbs' = Some (fold (\<lambda>(t, p). os_put p t) ws rs)"
  using assms
proof (induction ws arbitrary: s dbs1 rs)
  case Nil
  then show ?case by auto
next
  case (Cons w ws)
  obtain t p where w: "w = (t, p)" by (cases w)
  from markAsRead_open[OF Cons.prems, of "\<lparr>date_now = t, location_pathname = loc\<rparr>" "Str p"]
  obtain dbsA where m: "markAsRead \<lparr>date_now = t, location_pathname = loc\<rparr> (Str p) s = (Inr (), tr1, dbsA)"
    and st: "store_of conn (storeName tr1) dbsA = Some (os_put p t rs)"
    by auto
  have "db tr1 = Some (Inr conn)" using Cons.prems(1) by (rule openDB_cached)
  then have op: "openDB (tr1, dbsA) = (Inr conn, tr1, dbsA)" by (rule openDB_again)
  from Cons.IH[OF op st]
  obtain s' dbs' where "mark_each loc ws (tr1, dbsA) = (Inr (), s')"
    and "openDB s' = (Inr conn, tr1, dbs')"
    and "store_of conn (storeName tr1) dbs' = Some (fold (\<lambda>(t, p). os_put p t) ws (os_put p t rs))"
    by blast
  then show ?case using m by (auto simp: w)
qed

lemma fold_put_get_absent:
  "P \<notin> snd ` set ws \<Longrightarrow> os_get (fold (\<lambda>(t, p). os_put p t) ws rs) P = os_get rs P"
proof (induction ws arbitrary: rs)
  case Nil
  show ?case by simp
next
  case (Cons w ws)
  obtain t p where w: "w = (t, p)" by (cases w)
  from Cons.prems have "P \<noteq> p" and "P \<notin> snd ` set ws" by (auto simp: w)
  then show ?case using Cons.IH[of "os_put p t rs"] by (simp add: w os_get_put_other)
qed

lemma fold_put_get_latest:
  "P \<notin> snd ` set ws' \<Longrightarrow>
   os_get (fold (\<lambda>(t, p). os_put p t) (ws @ (t, P) # ws') rs) P = Some t"
  by (simp add: fold_put_get_absent os_get_put_same)




section \<open>The path argument\<close>

text \<open>
  C10. The empty string passed for the path is the key itself: with the connection open on
  its store, \<open>isRead("")\<close> looks up the key \<open>""\<close> and \<open>markAsRead("")\<close> writes under it,
  whatever the current location is. Only \<open>null\<close> and an omitted argument
  (\<open>undefined\<close>) make both use \<open>window.location.pathname\<close>.
\<close>

theorem empty_string_is_its_own_key:
  assumes "openDB s = (Inr conn, tr1, dbs1)"
    and "store_of conn (storeName tr1) dbs1 = Some rs"
  shows "isRead h (Str []) s = (Inr (date_or_null (os_get rs [])), tr1, dbs1) \<and>
         (\<exists>dbs'. markAsRead h (Str []) s = (Inr (), tr1, dbs') \<and>
                  store_of conn (storeName tr1) dbs' = Some (os_put [] (date_now h) rs)) \<and>
         isRead h Null s = (Inr (date_or_null (os_get rs (location_pathname h))), tr1, dbs1) \<and>
         isRead h Undefined s = isRead h Null s \<and>
         (\<exists>dbs'. markAsRead h Null s = (Inr (), tr1, dbs') \<and>
                  store_of conn (storeName tr1) dbs' =
                    Some (os_put (location_pathname h) (date_now h) rs)) \<and>
         markAsRead h Undefined s = markAsRead h Null s"
proof -
  have "isRead h Undefined s = isRead h Null s"
    using isRead_open[OF assms, of h Undefined] isRead_open[OF assms, of h Null] by simp
  moreover have "markAsRead h Undefined s = markAsRead h Null s"
    by (simp add: markAsRead_def)
  ultimately show ?thesis
    using isRead_open[OF assms, of h "Str []"] isRead_open[OF assms, of h Null]
      markAsRead_open[OF assms, of h "Str []"] markAsRead_open[OF assms, of h Null]
    by simp
qed

theorem empty_string_is_its_own_key_witness:
  "fst (isRead \<lparr>date_now = 1700000000000, location_pathname = js ''/tests/index.html''\<rparr> (Str (js ''''))
          (new_TrackPagesRead no_config, Map.empty)) = Inr None \<and>
   (\<exists>dbs'. markAsRead \<lparr>date_now = 1700000000000, location_pathname = js ''/tests/index.html''\<rparr>
              (Str (js '''')) (new_TrackPagesRead no_config, Map.empty) =
              (Inr (), \<lparr>dbName = ''track-pages-read'', dbVersion = 1, storeName = ''paths'',
                        db = Some (Inr ''track-pages-read'')\<rparr>, dbs') \<and>
            store_of ''track-pages-read'' ''paths'' dbs' = Some [(js '''', 1700000000000)]) \<and>
   (\<exists>dbs'. markAsRead \<lparr>date_now = 1700000000000, location_pathname = js ''/tests/index.html''\<rparr>
              Undefined (new_TrackPagesRead no_config, Map.empty) =
              (Inr (), \<lparr>dbName = ''track-pages-read'', dbVersion = 1, storeName = ''paths'',
                        db = Some (Inr ''track-pages-read'')\<rparr>, dbs') \<and>
            store_of ''track-pages-read'' ''paths'' dbs' =
              Some [(js ''/tests/index.html'', 1700000000000)])"
  using empty_string_is_its_own_key[OF openDB_first store_first,
      of "\<lparr>date_now = 1700000000000, location_pathname = js ''/tests/index.html''\<rparr>"]
  by (simp add: js_def os_get_def date_or_null_def)

section \<open>Reading back what was written\<close>

text \<open>
  C6, as amended. With the connection open on its store: after a run of \<open>markAsRead\<close> calls
  in which the most recent write to \<open>P\<close> recorded a clock reading \<open>t\<close> other than zero,
  \<open>isRead(P)\<close> returns the date of \<open>t\<close>, whatever the earlier writes recorded (each
  write stores the clock reading of its call, be it later or earlier than the one before);
  and when the store has no record for \<open>P\<close> and no call wrote \<open>P\<close>, \<open>isRead(P)\<close> returns
  \<open>null\<close>.
\<close>

theorem isRead_returns_latest_write:
  assumes "openDB s = (Inr conn, tr1, dbs1)"
    and "store_of conn (storeName tr1) dbs1 = Some rs"
  shows "(P \<notin> snd ` set ws' \<longrightarrow> t \<noteq> 0 \<longrightarrow>
            (\<exists>s'. mark_each loc (ws @ (t, P) # ws') s = (Inr (), s') \<and>
                  fst (isRead h (Str P) s') = Inr (Some (Date t)))) \<and>
         (os_get rs P = None \<longrightarrow> P \<notin> snd ` set ws \<longrightarrow>
            (\<exists>s'. mark_each loc ws s = (Inr (), s') \<and>
                  fst (isRead h (Str P) s') = Inr None))"
proof (intro conjI impI)
  assume last: "P \<notin> snd ` set ws'" and nz: "t \<noteq> 0"
  from mark_each_open[OF assms, of loc "ws @ (t, P) # ws'"]
  obtain s' dbs' where m: "mark_each loc (ws @ (t, P) # ws') s = (Inr (), s')"
    and op: "openDB s' = (Inr conn, tr1, dbs')"
    and st: "store_of conn (storeName tr1) dbs' =
               Some (fold (\<lambda>(t, p). os_put p t) (ws @ (t, P) # ws') rs)"
    by blast
  have "fst (isRead h (Str P) s') = Inr (Some (Date t))"
    using isRead_open[OF op st, of h "Str P"] fold_put_get_latest[OF last, of ws t rs] nz
    by (simp add: date_or_null_def)
  with m show "\<exists>s'. mark_each loc (ws @ (t, P) # ws') s = (Inr (), s') \<and>
                  fst (isRead h (Str P) s') = Inr (Some (Date t))"
    by blast
next
  assume none: "os_get rs P = None" and never: "P \<notin> snd ` set ws"
  from mark_each_open[OF assms, of loc ws]
  obtain s' dbs' where m: "mark_each loc ws s = (Inr (), s')"
    and op: "openDB s' = (Inr conn, tr1, dbs')"
    and st: "store_of conn (storeName tr1) dbs' = Some (fold (\<lambda>(t, p). os_put p t) ws rs)"
    by blast
  have "fst (isRead h (Str P) s') = Inr None"
    using isRead_open[OF op st, of h "Str P"] fold_put_get_absent[OF never, of rs] none
    by (simp add: date_or_null_def)
  with m show "\<exists>s'. mark_each loc ws s = (Inr (), s') \<and> fst (isRead h (Str P) s') = Inr None"
    by blast
qed

theorem isRead_returns_latest_write_witness:
  "fst (isRead \<lparr>date_now = 1700000009000, location_pathname = js ''/''\<rparr> (Str (js ''/x''))
          (snd (mark_each (js ''/'')
             ([(1700000000000, js ''/x'')] @ (1700000000100, js ''/x'') # [(1700000000200, js ''/y'')])
             (new_TrackPagesRead no_config, Map.empty)))) = Inr (Some (Date 1700000000100)) \<and>
   fst (isRead \<lparr>date_now = 1700000009000, location_pathname = js ''/''\<rparr> (Str (js ''/never-visited''))
          (snd (mark_each (js ''/'') [(1700000000000, js ''/x'')]
             (new_TrackPagesRead no_config, Map.empty)))) = Inr None"
proof -
  have a: "js ''/x'' \<notin> snd ` set [(1700000000200::int, js ''/y'')]" by (simp add: js_def)
  have b: "(1700000000100::int) \<noteq> 0" by simp
  have c: "os_get [] (js ''/never-visited'') = None" by (simp add: os_get_def)
  have d: "js ''/never-visited'' \<notin> snd ` set [(1700000000000::int, js ''/x'')]" by (simp add: js_def)
  from isRead_returns_latest_write[OF openDB_first store_first,
      of "js ''/x''" "[(1700000000200, js ''/y'')]" 1700000000100 "js ''/''" "[(1700000000000, js ''/x'')]"
         "\<lparr>date_now = 1700000009000, location_pathname = js ''/''\<rparr>"] a b
  have 1: "fst (isRead \<lparr>date_now = 1700000009000, location_pathname = js ''/''\<rparr> (Str (js ''/x''))
          (snd (mark_each (js ''/'')
             ([(1700000000000, js ''/x'')] @ (1700000000100, js ''/x'') # [(1700000000200, js ''/y'')])
             (new_TrackPagesRead no_config, Map.empty)))) = Inr (Some (Date 1700000000100))"
    by auto
  from isRead_returns_latest_write[OF openDB_first store_first,
      of "js ''/never-visited''" "[(1700000000000, js ''/x'')]" 0 "js ''/''" "[(1700000000000, js ''/x'')]"
         "\<lparr>date_now = 1700000009000, location_pathname = js ''/''\<rparr>"] c d
  have 2: "fst (isRead \<lparr>date_now = 1700000009000, location_pathname = js ''/''\<rparr> (Str (js ''/never-visited''))
          (snd (mark_each (js ''/'') [(1700000000000, js ''/x'')]
             (new_TrackPagesRead no_config, Map.empty)))) = Inr None"
    by auto
  from 1 2 show ?thesis by blast
qed

text \<open>
  The claim as it was stated fails twice: a write that completes at clock reading \<open>0\<close> is
  read back as \<open>null\<close>, and a second write made when the clock reads less than at the first
  records the smaller timestamp.
\<close>

theorem isRead_zero_or_earlier_clock_counterexample:
  "fst (markAsRead \<lparr>date_now = 0, location_pathname = js ''/''\<rparr> (Str (js ''/x''))
          (new_TrackPagesRead no_config, Map.empty)) = Inr () \<and>
   fst (isRead \<lparr>date_now = 5, location_pathname = js ''/''\<rparr> (Str (js ''/x''))
          (snd (markAsRead \<lparr>date_now = 0, location_pathname = js ''/''\<rparr> (Str (js ''/x''))
             (new_TrackPagesRead no_config, Map.empty)))) = Inr None \<and>
   fst (isRead \<lparr>date_now = 1700000009000, location_pathname = js ''/''\<rparr> (Str (js ''/x''))
          (snd (mark_each (js ''/'') [(1700000000500, js ''/x'')]
             (new_TrackPagesRead no_config, Map.empty)))) = Inr (Some (Date 1700000000500)) \<and>
   fst (isRead \<lparr>date_now = 1700000009000, location_pathname = js ''/''\<rparr> (Str (js ''/x''))
          (snd (mark_each (js ''/'') [(1700000000500, js ''/x''), (1700000000000, js ''/x'')]
             (new_TrackPagesRead no_config, Map.empty)))) = Inr (Some (Date 1700000000000)) \<and>
   (1700000000000::int) < 1700000000500"
  by (simp add: run_defs)

section \<open>Iterating over the collection\<close>








section \<open>Reconfiguration\<close>

lemma openDB_after_setConfig:
  "db tr = Some p \<Longrightarrow> openDB (setConfig c tr, dbs) = (p, setConfig c tr, dbs)"
  by (simp add: openDB_def setConfig_def)

text \<open>
  C1. The claim wants \<open>setConfig\<close> with a new database name to make the next operation open
  that database. \<open>setConfig\<close> assigns the three names and leaves \<open>#db\<close> alone, so
  \<open>#openDB\<close> goes on returning the cached connection. Here a tracker made with the
  defaults writes a page, is pointed at \<open>reconfigured-db\<close> as in the repository's
  reconfiguration test, and writes another page: the second record lands in
  \<open>track-pages-read\<close> beside the first, and \<open>reconfigured-db\<close> is never created.
\<close>

theorem setConfig_keeps_cached_connection:
  "let h = \<lparr>date_now = 1700000000000, location_pathname = js ''/''\<rparr>;
       s1 = snd (markAsRead h (Str (js ''/default-db-page'')) (new_TrackPagesRead no_config, Map.empty));
       tr2 = setConfig \<lparr>c_dbName = Some ''reconfigured-db'', c_dbVersion = None,
                         c_storeName = Some ''paths''\<rparr> (fst s1);
       s3 = snd (markAsRead h (Str (js ''/reconfigured-page'')) (tr2, snd s1))
   in dbName tr2 = ''reconfigured-db'' \<and>
      fst (openDB (tr2, snd s1)) = Inr ''track-pages-read'' \<and>
      snd s3 ''reconfigured-db'' = None \<and>
      store_of ''track-pages-read'' ''paths'' (snd s3) =
        Some [(js ''/default-db-page'', 1700000000000), (js ''/reconfigured-page'', 1700000000000)]"
  by (simp add: run_defs)

section \<open>The prefix query\<close>











section \<open>Facts about the throttle gate\<close>

lemmas gate_defs = gated_def timer_fires_def setTimeout_def clearTimeout_def truthy_def
  new_gate_def Let_def calls_def

lemma gate_ok_new: "gate_ok new_gate"
  by (simp add: gate_ok_def new_gate_def)

lemma gate_ok_cases:
  assumes "gate_ok g"
  obtains (idle) "timeout g = None" "pending g = []" "0 < fresh g"
  | (armed) t where "timeout g = Some (handle t)" "pending g = [t]" "0 < handle t" "handle t < fresh g"
proof (cases "timeout g")
  case None
  with assms show ?thesis by (intro idle) (simp_all add: gate_ok_def)
next
  case (Some h)
  with assms obtain t where "pending g = [t]" "handle t = h" "0 < h" "h < fresh g"
    by (auto simp: gate_ok_def split: list.splits)
  with Some show ?thesis by (intro armed[of t]) simp_all
qed

lemma gate_ok_gated: "gate_ok g \<Longrightarrow> gate_ok (snd (gated limit now a g))"
  by (erule gate_ok_cases) (auto simp: gate_defs gate_ok_def)

lemma gate_ok_fires: "gate_ok g \<Longrightarrow> gate_ok (snd (timer_fires h now g))"
  by (erule gate_ok_cases) (auto simp: gate_defs gate_ok_def)

lemma gate_ok_step: "gate_ok g \<Longrightarrow> gate_ok (snd (step limit e g))"
  by (cases e) (simp_all add: gate_ok_gated gate_ok_fires)

lemma gate_ok_run: "gate_ok g \<Longrightarrow> gate_ok (snd (run_gate limit es g))"
proof (induction es arbitrary: g)
  case Nil
  then show ?case by simp
next
  case (Cons e es)
  from Cons.prems have "gate_ok (snd (step limit e g))" by (rule gate_ok_step)
  from Cons.IH[OF this] show ?case by (simp add: split_def)
qed

lemma gate_ok_one: "gate_ok g \<Longrightarrow> length (pending g) \<le> 1"
  by (erule gate_ok_cases) simp_all

text \<open>A call inside the window, with no timer live, sets one.\<close>

lemma gated_schedules:
  assumes "gate_ok g" and "pending g = []" and "0 < limit - (now - lastCall g)"
  shows "gated limit now a g =
     ([], g\<lparr>pending := [\<lparr>handle = fresh g, set_at = now, delay = limit - (now - lastCall g),
                         bound_args = a\<rparr>],
            fresh := Suc (fresh g), timeout := Some (fresh g)\<rparr>)"
  using assms by (auto simp: gate_defs gate_ok_def split: option.splits)

text \<open>A call inside the window, with a timer live, does nothing.\<close>

lemma gated_ignored:
  assumes "gate_ok g" and "pending g = [t]" and "0 < limit - (now - lastCall g)"
  shows "gated limit now a g = ([], g)"
  using assms by (auto simp: gate_defs gate_ok_def split: option.splits)

text \<open>A call after the window runs the action at once and clears a live timer.\<close>

lemma gated_admits:
  assumes "gate_ok g" and "limit - (now - lastCall g) \<le> 0"
  shows "gated limit now a g = ([Leading now a], g\<lparr>pending := [], timeout := None, lastCall := now\<rparr>)"
  using assms(1)
proof (cases rule: gate_ok_cases)
  case idle
  then show ?thesis using assms(2) by (simp add: gate_defs)
next
  case (armed t)
  then show ?thesis using assms(2) by (simp add: gate_defs)
qed

lemma fires_live:
  assumes "pending g = [t]"
  shows "timer_fires (handle t) now g =
     ([Trailing now (bound_args t)], g\<lparr>pending := [], lastCall := now, timeout := None\<rparr>)"
  using assms by (simp add: gate_defs)

lemma fires_idle: "pending g = [] \<Longrightarrow> timer_fires h now g = ([], g)"
  by (simp add: gate_defs)

section \<open>One deferred call at a time\<close>

lemma run_gate_append:
  "run_gate limit (es @ fs) g =
     (case run_gate limit es g of
        (out, g') \<Rightarrow> (case run_gate limit fs g' of (outs, g'') \<Rightarrow> (out @ outs, g'')))"
  by (induction es arbitrary: g) (simp_all add: split_def)

lemma run_calls_ignored:
  assumes "gate_ok g" and "pending g = [t]"
    and "\<forall>c \<in> set cs. 0 < limit - (fst c - lastCall g)"
  shows "run_gate limit (calls cs) g = ([], g)"
  using assms(3)
proof (induction cs)
  case Nil
  show ?case by (simp add: calls_def)
next
  case (Cons c cs)
  obtain n b where c: "c = (n, b)" by (cases c)
  from Cons.prems have "0 < limit - (n - lastCall g)" by (simp add: c)
  from gated_ignored[OF assms(1,2) this, of b] have "gated limit n b g = ([], g)" .
  moreover from Cons have "run_gate limit (calls cs) g = ([], g)" by simp
  ultimately show ?case by (simp add: calls_def c)
qed

text \<open>
  Later calls leave a live timer as it is, or clear it; any timer they set afterwards has a
  handle the host had not handed out before.
\<close>

lemma gated_keeps_or_replaces:
  assumes "gate_ok g" and "F \<le> fresh g"
    and "pending g = [t] \<or> (\<forall>x \<in> set (pending g). F \<le> handle x)"
  shows "F \<le> fresh (snd (gated limit n b g)) \<and>
         (pending (snd (gated limit n b g)) = [t] \<or>
          (\<forall>x \<in> set (pending (snd (gated limit n b g))). F \<le> handle x))"
proof (cases "limit - (n - lastCall g) \<le> 0")
  case True
  from gated_admits[OF assms(1) True, of b] assms(2) show ?thesis by simp
next
  case False
  then have pos: "0 < limit - (n - lastCall g)" by simp
  from assms(1) show ?thesis
  proof (cases rule: gate_ok_cases)
    case idle
    from gated_schedules[OF assms(1) idle(2) pos, of b] assms(2) show ?thesis by simp
  next
    case (armed u)
    from gated_ignored[OF assms(1) armed(2) pos, of b] assms(2,3) show ?thesis by simp
  qed
qed

lemma calls_keep_or_replace:
  assumes "gate_ok g" and "F \<le> fresh g"
    and "pending g = [t] \<or> (\<forall>x \<in> set (pending g). F \<le> handle x)"
  shows "pending (snd (run_gate limit (calls cs) g)) = [t] \<or>
         (\<forall>x \<in> set (pending (snd (run_gate limit (calls cs) g))). F \<le> handle x)"
  using assms
proof (induction cs arbitrary: g)
  case Nil
  then show ?case by (simp add: calls_def)
next
  case (Cons c cs)
  obtain n b where c: "c = (n, b)" by (cases c)
  let ?g = "snd (gated limit n b g)"
  have ok: "gate_ok ?g" using Cons.prems(1) by (rule gate_ok_gated)
  from gated_keeps_or_replaces[OF Cons.prems, of limit n b]
  have "F \<le> fresh ?g" and "pending ?g = [t] \<or> (\<forall>x \<in> set (pending ?g). F \<le> handle x)"
    by simp_all
  from Cons.IH[OF ok this] show ?case by (simp add: calls_def c split_def)
qed

lemma fires_own_args_or_nothing:
  assumes "handle t < F"
    and "pending g = [t] \<or> (\<forall>x \<in> set (pending g). F \<le> handle x)"
  shows "fst (timer_fires (handle t) now g) = [Trailing now (bound_args t)] \<or>
         fst (timer_fires (handle t) now g) = []"
proof -
  from assms(2) show ?thesis
  proof
    assume "pending g = [t]"
    then show ?thesis by (simp add: fires_live)
  next
    assume "\<forall>x \<in> set (pending g). F \<le> handle x"
    with assms(1) have "find (\<lambda>x. handle x = handle t) (pending g) = None"
      by (auto simp: find_None_iff)
    then show ?thesis by (simp add: timer_fires_def)
  qed
qed

text \<open>
  C4. After any history of calls and timer runs, at most one timer of the gate is live. A
  call that arrives while one is live sets no new timer (the host hands out no handle): it
  leaves the live timer as it is, or, when the window has passed, clears it and runs at once.
  Whatever calls come later, the timer, when it runs, calls the action with the arguments it
  was set with, or finds itself cleared and does nothing; after calls that all fall inside
  the window it does run, with those arguments.
\<close>

theorem at_most_one_deferred_call:
  "let g = snd (run_gate limit es new_gate) in
     length (pending g) \<le> 1 \<and>
     (\<forall>t. pending g = [t] \<longrightarrow>
        fresh (snd (gated limit now a g)) = fresh g \<and>
        (pending (snd (gated limit now a g)) = [t] \<or> pending (snd (gated limit now a g)) = []) \<and>
        (0 < limit - (now - lastCall g) \<longrightarrow> gated limit now a g = ([], g)) \<and>
        (\<forall>cs now'.
           fst (timer_fires (handle t) now' (snd (run_gate limit (calls cs) g))) =
             [Trailing now' (bound_args t)] \<or>
           fst (timer_fires (handle t) now' (snd (run_gate limit (calls cs) g))) = []) \<and>
        (\<forall>cs now'. (\<forall>c \<in> set cs. 0 < limit - (fst c - lastCall g)) \<longrightarrow>
           fst (run_gate limit (calls cs @ [Fire (handle t) now']) g) =
             [Trailing now' (bound_args t)]))"
proof -
  define g where "g = snd (run_gate limit es (new_gate :: 'a gate))"
  have ok: "gate_ok g" unfolding g_def by (rule gate_ok_run) (rule gate_ok_new)
  have one: "length (pending g) \<le> 1" using ok by (rule gate_ok_one)
  have rest: "fresh (snd (gated limit now a g)) = fresh g \<and>
        (pending (snd (gated limit now a g)) = [t] \<or> pending (snd (gated limit now a g)) = []) \<and>
        (0 < limit - (now - lastCall g) \<longrightarrow> gated limit now a g = ([], g)) \<and>
        (\<forall>cs now'.
           fst (timer_fires (handle t) now' (snd (run_gate limit (calls cs) g))) =
             [Trailing now' (bound_args t)] \<or>
           fst (timer_fires (handle t) now' (snd (run_gate limit (calls cs) g))) = []) \<and>
        (\<forall>cs now'. (\<forall>c \<in> set cs. 0 < limit - (fst c - lastCall g)) \<longrightarrow>
           fst (run_gate limit (calls cs @ [Fire (handle t) now']) g) =
             [Trailing now' (bound_args t)])"
    if live: "pending g = [t]" for t
  proof -
    from ok live have lt: "handle t < fresh g"
      by (cases rule: gate_ok_cases) simp_all
    have 1: "fresh (snd (gated limit now a g)) = fresh g \<and>
        (pending (snd (gated limit now a g)) = [t] \<or> pending (snd (gated limit now a g)) = [])"
    proof (cases "limit - (now - lastCall g) \<le> 0")
      case True
      from gated_admits[OF ok True, of a] show ?thesis by simp
    next
      case False
      then have "0 < limit - (now - lastCall g)" by simp
      from gated_ignored[OF ok live this, of a] live show ?thesis by simp
    qed
    have 2: "0 < limit - (now - lastCall g) \<longrightarrow> gated limit now a g = ([], g)"
      using gated_ignored[OF ok live, of limit now a] by simp
    have 3: "fst (timer_fires (handle t) now' (snd (run_gate limit (calls cs) g))) =
             [Trailing now' (bound_args t)] \<or>
           fst (timer_fires (handle t) now' (snd (run_gate limit (calls cs) g))) = []" for cs now'
      using calls_keep_or_replace[OF ok order_refl, of t limit cs] live
      by (intro fires_own_args_or_nothing[OF lt]) simp
    have 4: "fst (run_gate limit (calls cs @ [Fire (handle t) now']) g) =
             [Trailing now' (bound_args t)]"
      if "\<forall>c \<in> set cs. 0 < limit - (fst c - lastCall g)" for cs now'
      using run_calls_ignored[OF ok live that] live
      by (simp add: run_gate_append fires_live)
    from 1 2 3 4 show ?thesis by blast
  qed
  from one rest show ?thesis unfolding g_def Let_def by blast
qed


theorem at_most_one_deferred_call_witness:
  "pending (snd (run_gate 100 [Call 1700000000000 ''a'', Call 1700000000010 ''b''] new_gate)) =
     [\<lparr>handle = 1, set_at = 1700000000010, delay = 90, bound_args = ''b''\<rparr>] \<and>
   gated 100 1700000000020 ''c''
     (snd (run_gate 100 [Call 1700000000000 ''a'', Call 1700000000010 ''b''] new_gate)) =
     ([], snd (run_gate 100 [Call 1700000000000 ''a'', Call 1700000000010 ''b''] new_gate)) \<and>
   fst (run_gate 100 (calls [(1700000000020, ''c''), (1700000000030, ''d'')] @ [Fire 1 1700000000100])
         (snd (run_gate 100 [Call 1700000000000 ''a'', Call 1700000000010 ''b''] new_gate))) =
     [Trailing 1700000000100 ''b'']"
proof -
  let ?es = "[Call 1700000000000 ''a'', Call 1700000000010 ''b'']"
  let ?t = "\<lparr>handle = 1, set_at = 1700000000010, delay = 90, bound_args = ''b''\<rparr>"
  have g: "snd (run_gate 100 ?es new_gate) =
             \<lparr>lastCall = 1700000000000, timeout = Some 1, pending = [?t], fresh = 2\<rparr>"
    by (simp add: gate_defs)
  have p: "pending (snd (run_gate 100 ?es new_gate)) = [?t]"
    unfolding g by simp
  have w1: "0 < (100::int) - (1700000000020 - lastCall (snd (run_gate 100 ?es new_gate)))"
    unfolding g by simp
  have w2: "\<forall>c \<in> set [(1700000000020::int, ''c''), (1700000000030, ''d'')].
              0 < 100 - (fst c - lastCall (snd (run_gate 100 ?es new_gate)))"
    unfolding g by simp
  from at_most_one_deferred_call[of 100 ?es 1700000000020 "''c''"] p w1 w2
  have a: "gated 100 1700000000020 ''c'' (snd (run_gate 100 ?es new_gate)) =
          ([], snd (run_gate 100 ?es new_gate))"
    and b0: "fst (run_gate 100 (calls [(1700000000020, ''c''), (1700000000030, ''d'')] @ [Fire (handle ?t) 1700000000100])
           (snd (run_gate 100 ?es new_gate))) = [Trailing 1700000000100 (bound_args ?t)]"
    unfolding Let_def by blast+
  have sel: "handle ?t = 1" "bound_args ?t = ''b''" by simp_all
  from b0 have b: "fst (run_gate 100 (calls [(1700000000020, ''c''), (1700000000030, ''d'')] @ [Fire 1 1700000000100])
           (snd (run_gate 100 ?es new_gate))) = [Trailing 1700000000100 ''b'']"
    unfolding sel .
  from p a b show ?thesis by blast
qed

section \<open>The deferred call\<close>

text \<open>
  C3, as amended. After any history, a call that arrives inside the window while no timer is
  live runs nothing and sets one timer, with the delay \<open>limit - (now - lastCall)\<close> and the
  arguments of that call. When the timer runs, after any later calls that fall inside the
  window, the action is called with the arguments of the call that set the timer, \<open>lastCall\<close>
  becomes the clock reading of that moment and \<open>timeout\<close> is \<open>null\<close> again.
\<close>

theorem deferred_call_runs_with_scheduling_arguments:
  "let g = snd (run_gate limit es new_gate); g1 = snd (gated limit now a g) in
     pending g = [] \<longrightarrow> 0 < limit - (now - lastCall g) \<longrightarrow>
       fst (gated limit now a g) = [] \<and>
       pending g1 = [\<lparr>handle = fresh g, set_at = now, delay = limit - (now - lastCall g),
                      bound_args = a\<rparr>] \<and>
       timeout g1 = Some (fresh g) \<and>
       (\<forall>cs now'. (\<forall>c \<in> set cs. 0 < limit - (fst c - lastCall g)) \<longrightarrow>
          run_gate limit (calls cs @ [Fire (fresh g) now']) g1 =
            ([Trailing now' a], g1\<lparr>pending := [], lastCall := now', timeout := None\<rparr>))"
proof -
  define g where "g = snd (run_gate limit es (new_gate :: 'a gate))"
  define t where "t = \<lparr>handle = fresh g, set_at = now, delay = limit - (now - lastCall g),
                       bound_args = a\<rparr>"
  define g1 where "g1 = snd (gated limit now a g)"
  have ok: "gate_ok g" unfolding g_def by (rule gate_ok_run) (rule gate_ok_new)
  have ok1: "gate_ok g1" unfolding g1_def using ok by (rule gate_ok_gated)
  have main: "fst (gated limit now a g) = [] \<and> pending g1 = [t] \<and> timeout g1 = Some (fresh g) \<and>
       (\<forall>cs now'. (\<forall>c \<in> set cs. 0 < limit - (fst c - lastCall g)) \<longrightarrow>
          run_gate limit (calls cs @ [Fire (fresh g) now']) g1 =
            ([Trailing now' a], g1\<lparr>pending := [], lastCall := now', timeout := None\<rparr>))"
    if idle: "pending g = []" and inside: "0 < limit - (now - lastCall g)"
  proof -
    from gated_schedules[OF ok idle inside, of a]
    have sch: "gated limit now a g = ([], g\<lparr>pending := [t], fresh := Suc (fresh g), timeout := Some (fresh g)\<rparr>)"
      by (simp add: t_def)
    then have p1: "pending g1 = [t]" and t1: "timeout g1 = Some (fresh g)"
      and l1: "lastCall g1 = lastCall g"
      by (simp_all add: g1_def)
    have h: "handle t = fresh g" and b: "bound_args t = a" by (simp_all add: t_def)
    have run: "run_gate limit (calls cs @ [Fire (fresh g) now']) g1 =
            ([Trailing now' a], g1\<lparr>pending := [], lastCall := now', timeout := None\<rparr>)"
      if "\<forall>c \<in> set cs. 0 < limit - (fst c - lastCall g)" for cs now'
    proof -
      from that have "\<forall>c \<in> set cs. 0 < limit - (fst c - lastCall g1)" by (simp add: l1)
      from run_calls_ignored[OF ok1 p1 this]
      have "run_gate limit (calls cs) g1 = ([], g1)" .
      then show ?thesis
        using fires_live[OF p1, of now'] by (simp add: run_gate_append h b)
    qed
    from sch p1 t1 run show ?thesis by simp
  qed
  then show ?thesis unfolding Let_def g_def g1_def t_def by blast
qed

theorem deferred_call_runs_with_scheduling_arguments_witness:
  "pending (snd (run_gate 100 [Call 1700000000000 ''a''] new_gate)) = [] \<and>
   gated 100 1700000000010 ''b'' (snd (run_gate 100 [Call 1700000000000 ''a''] new_gate)) =
     ([], \<lparr>lastCall = 1700000000000, timeout = Some 1,
           pending = [\<lparr>handle = 1, set_at = 1700000000010, delay = 90, bound_args = ''b''\<rparr>],
           fresh = 2\<rparr>) \<and>
   fst (run_gate 100 (calls [(1700000000020, ''c'')] @ [Fire 1 1700000000100])
         (snd (gated 100 1700000000010 ''b''
            (snd (run_gate 100 [Call 1700000000000 ''a''] new_gate))))) =
     [Trailing 1700000000100 ''b'']"
proof -
  let ?es = "[Call 1700000000000 ''a'']"
  have g: "snd (run_gate 100 ?es new_gate) =
             \<lparr>lastCall = 1700000000000, timeout = None, pending = ([] :: string timer list), fresh = 1\<rparr>"
    by (simp add: gate_defs)
  have idle: "pending (snd (run_gate 100 ?es (new_gate :: string gate))) = []"
    unfolding g by simp
  have inside: "0 < (100::int) - (1700000000010 - lastCall (snd (run_gate 100 ?es (new_gate :: string gate))))"
    unfolding g by simp
  have later: "\<forall>c \<in> set [(1700000000020::int, ''c'')].
                 0 < 100 - (fst c - lastCall (snd (run_gate 100 ?es (new_gate :: string gate))))"
    unfolding g by simp
  have fr: "fresh (snd (run_gate 100 ?es (new_gate :: string gate))) = 1"
    unfolding g by simp
  from deferred_call_runs_with_scheduling_arguments[of 100 ?es 1700000000010 "''b''"] idle inside later
  have "run_gate 100 (calls [(1700000000020, ''c'')] @
            [Fire (fresh (snd (run_gate 100 ?es (new_gate :: string gate)))) 1700000000100])
          (snd (gated 100 1700000000010 ''b'' (snd (run_gate 100 ?es new_gate)))) =
        ([Trailing 1700000000100 ''b''],
         (snd (gated 100 1700000000010 ''b'' (snd (run_gate 100 ?es new_gate))))
           \<lparr>pending := [], lastCall := 1700000000100, timeout := None\<rparr>)"
    unfolding Let_def by blast
  then have b: "fst (run_gate 100 (calls [(1700000000020, ''c'')] @ [Fire 1 1700000000100])
         (snd (gated 100 1700000000010 ''b'' (snd (run_gate 100 ?es new_gate))))) =
     [Trailing 1700000000100 ''b'']"
    unfolding fr by simp
  have a: "gated 100 1700000000010 ''b'' (snd (run_gate 100 ?es new_gate)) =
     ([], \<lparr>lastCall = 1700000000000, timeout = Some 1,
           pending = [\<lparr>handle = 1, set_at = 1700000000010, delay = 90, bound_args = ''b''\<rparr>],
           fresh = 2\<rparr>)"
    unfolding g by (simp add: gate_defs)
  from idle a b show ?thesis by blast
qed

text \<open>
  The claim as it was stated has the timer use the latest arguments. Three calls \<open>a\<close>,
  \<open>b\<close>, \<open>c\<close> in one window of 100 ms: \<open>a\<close> runs at once, \<open>b\<close> sets the timer, \<open>c\<close> is
  dropped, and the timer runs the action with \<open>b\<close>.
\<close>

theorem deferred_call_ignores_latest_arguments_counterexample:
  "fst (run_gate 100
          [Call 1700000000000 ''a'', Call 1700000000010 ''b'', Call 1700000000020 ''c'',
           Fire 1 1700000000100] new_gate) =
     [Leading 1700000000000 ''a'', Trailing 1700000000100 ''b''] \<and>
   ''b'' \<noteq> ''c''"
  by (simp add: gate_defs)

section \<open>The window guarantee\<close>

lemma leading_times_append:
  "leading_times (xs @ ys) = leading_times xs @ leading_times ys"
  by (induction xs rule: leading_times.induct) simp_all

text \<open>What one step does to the log of leading-edge executions and to \<open>lastCall\<close>.\<close>

lemma step_leading:
  assumes "step limit e g = (out, g')"
  shows "(leading_times out = [] \<and> (lastCall g' = lastCall g \<or> lastCall g' = event_time e)) \<or>
         (leading_times out = [event_time e] \<and> lastCall g' = event_time e \<and>
          lastCall g + limit \<le> event_time e)"
proof (cases e)
  case (Call now a)
  with assms show ?thesis
    by (auto simp: gate_defs split: if_splits option.splits)
next
  case (Fire h now)
  with assms show ?thesis
    by (auto simp: gate_defs split: option.splits)
qed

lemma run_spaced:
  assumes "sorted (map event_time es)" and "\<forall>e \<in> set es. lastCall g \<le> event_time e"
  shows "sorted_wrt (\<lambda>t u. t + limit \<le> u) (leading_times (fst (run_gate limit es g))) \<and>
         (\<forall>t \<in> set (leading_times (fst (run_gate limit es g))). lastCall g + limit \<le> t)"
  using assms
proof (induction es arbitrary: g)
  case Nil
  show ?case by simp
next
  case (Cons e es)
  obtain out g' where st: "step limit e g = (out, g')" by (cases "step limit e g")
  from Cons.prems have srt: "sorted (map event_time es)"
    and after: "\<forall>x \<in> set es. event_time e \<le> event_time x"
    and first: "lastCall g \<le> event_time e"
    and all: "\<forall>x \<in> set es. lastCall g \<le> event_time x"
    by auto
  from step_leading[OF st]
  have lc: "lastCall g' = lastCall g \<or> lastCall g' = event_time e" by auto
  with after all have "\<forall>x \<in> set es. lastCall g' \<le> event_time x" by auto
  from Cons.IH[OF srt this]
  have ih1: "sorted_wrt (\<lambda>t u. t + limit \<le> u) (leading_times (fst (run_gate limit es g')))"
    and ih2: "\<forall>t \<in> set (leading_times (fst (run_gate limit es g'))). lastCall g' + limit \<le> t"
    by simp_all
  have run: "leading_times (fst (run_gate limit (e # es) g)) =
               leading_times out @ leading_times (fst (run_gate limit es g'))"
    by (simp add: st split_def leading_times_append)
  from lc first have mono: "lastCall g \<le> lastCall g'" by auto
  from step_leading[OF st] show ?case unfolding run
  proof
    assume "leading_times out = [] \<and> (lastCall g' = lastCall g \<or> lastCall g' = event_time e)"
    then have "leading_times out = []" by simp
    moreover have "\<forall>t \<in> set (leading_times (fst (run_gate limit es g'))). lastCall g + limit \<le> t"
      using ih2 mono by fastforce
    ultimately show "sorted_wrt (\<lambda>t u. t + limit \<le> u)
            (leading_times out @ leading_times (fst (run_gate limit es g'))) \<and>
          (\<forall>t \<in> set (leading_times out @ leading_times (fst (run_gate limit es g'))).
             lastCall g + limit \<le> t)"
      using ih1 by simp
  next
    assume a: "leading_times out = [event_time e] \<and> lastCall g' = event_time e \<and>
          lastCall g + limit \<le> event_time e"
    then have o: "leading_times out = [event_time e]" and l: "lastCall g' = event_time e"
      and f: "lastCall g + limit \<le> event_time e" by simp_all
    have nxt: "\<forall>t \<in> set (leading_times (fst (run_gate limit es g'))). event_time e + limit \<le> t"
      using ih2 l by simp
    have "\<forall>t \<in> set (leading_times (fst (run_gate limit es g'))). lastCall g + limit \<le> t"
      using ih2 mono by fastforce
    then show "sorted_wrt (\<lambda>t u. t + limit \<le> u)
            (leading_times out @ leading_times (fst (run_gate limit es g'))) \<and>
          (\<forall>t \<in> set (leading_times out @ leading_times (fst (run_gate limit es g'))).
             lastCall g + limit \<le> t)"
      using ih1 nxt f by (simp add: o)
  qed
qed

lemma window_one:
  "sorted_wrt (\<lambda>t u. t + limit \<le> u) (ts :: int list) \<Longrightarrow>
   length (filter (\<lambda>t. w \<le> t \<and> t < w + limit) ts) \<le> 1"
proof (induction ts)
  case Nil
  show ?case by simp
next
  case (Cons t ts)
  show ?case
  proof (cases "w \<le> t \<and> t < w + limit")
    case True
    have "\<not> (w \<le> u \<and> u < w + limit)" if "u \<in> set ts" for u
    proof -
      from that Cons.prems have "t + limit \<le> u" by simp
      with True show ?thesis by linarith
    qed
    then have "\<forall>u \<in> set ts. \<not> (w \<le> u \<and> u < w + limit)" by blast
    then have "filter (\<lambda>t. w \<le> t \<and> t < w + limit) ts = []" by (simp add: filter_empty_conv)
    with True show ?thesis by simp
  next
    case False
    from Cons.prems have "sorted_wrt (\<lambda>t u. t + limit \<le> u) ts" by simp
    from Cons.IH[OF this] False show ?thesis by auto
  qed
qed


lemma burst_run:
  assumes ok: "gate_ok g" and adm: "limit - (t1 - lastCall g) \<le> 0"
    and win: "\<forall>c \<in> set ((t2, a2) # cs). fst c < t1 + limit"
  shows "run_gate limit (Call t1 a1 # Call t2 a2 # calls cs) g =
           ([Leading t1 a1],
            g\<lparr>pending := [\<lparr>handle = fresh g, set_at = t2, delay = limit - (t2 - t1),
                               bound_args = a2\<rparr>],
              timeout := Some (fresh g), lastCall := t1, fresh := Suc (fresh g)\<rparr>)"
proof -
  let ?g1 = "g\<lparr>pending := [], timeout := None, lastCall := t1\<rparr>"
  let ?t = "\<lparr>handle = fresh g, set_at = t2, delay = limit - (t2 - t1), bound_args = a2\<rparr>"
  let ?g2 = "?g1\<lparr>pending := [?t], fresh := Suc (fresh ?g1), timeout := Some (fresh ?g1)\<rparr>"
  have s1: "gated limit t1 a1 g = ([Leading t1 a1], ?g1)"
    using ok adm by (rule gated_admits)
  have ok1: "gate_ok ?g1" using gate_ok_gated[OF ok, of limit t1 a1] by (simp add: s1)
  from win have in2: "0 < limit - (t2 - lastCall ?g1)" by simp
  have s2: "gated limit t2 a2 ?g1 = ([], ?g2)"
    using gated_schedules[OF ok1 _ in2, of a2] by simp
  have ok2: "gate_ok ?g2" using gate_ok_gated[OF ok1, of limit t2 a2] by (simp add: s2)
  from win have "\<forall>c \<in> set cs. 0 < limit - (fst c - lastCall ?g2)" by fastforce
  from run_calls_ignored[OF ok2 _ this, of ?t]
  have s3: "run_gate limit (calls cs) ?g2 = ([], ?g2)" by simp
  show ?thesis using s3 by (simp add: s1 s2)
qed

text \<open>
  C5, as amended. For a gate with window \<open>limit\<close>:
  \<^item> when the clock readings of the events never decrease and are not negative, any window
    of length \<open>limit\<close> (its start included, its end not) holds at most one leading-edge
    execution;
  \<^item> a call that arrives inside the window runs nothing and leaves exactly one timer live;
    when that timer runs, the action is called once and no timer is left; a call that is
    admitted before the timer has run clears it and runs at once instead;
  \<^item> a burst of two or more calls in one window, the first of them admitted, makes one
    leading-edge execution, with the first call's arguments, and sets one timer, due when the
    window ends; with the timer run, the log holds two executions, however many calls the
    burst had.
\<close>

theorem throttle_window_guarantee:
  "(sorted (map event_time es) \<longrightarrow> (\<forall>e \<in> set es. 0 \<le> event_time e) \<longrightarrow>
      length (filter (\<lambda>t. w \<le> t \<and> t < w + limit)
                (leading_times (fst (run_gate limit es new_gate)))) \<le> 1) \<and>
   (let g = snd (run_gate limit es new_gate); g1 = snd (gated limit now a g) in
      0 < limit - (now - lastCall g) \<longrightarrow>
        fst (gated limit now a g) = [] \<and> length (pending g1) = 1 \<and>
        (\<forall>t now'. pending g1 = [t] \<longrightarrow>
           timer_fires (handle t) now' g1 =
             ([Trailing now' (bound_args t)],
              g1\<lparr>pending := [], lastCall := now', timeout := None\<rparr>) \<and>
           (limit - (now' - lastCall g1) \<le> 0 \<longrightarrow>
              gated limit now' b g1 =
                ([Leading now' b], g1\<lparr>pending := [], timeout := None, lastCall := now'\<rparr>)))) \<and>
   (let g = snd (run_gate limit es new_gate) in
      limit - (t1 - lastCall g) \<le> 0 \<longrightarrow> (\<forall>c \<in> set ((t2, a2) # cs). fst c < t1 + limit) \<longrightarrow>
        fst (run_gate limit (Call t1 a1 # Call t2 a2 # calls cs) g) = [Leading t1 a1] \<and>
        pending (snd (run_gate limit (Call t1 a1 # Call t2 a2 # calls cs) g)) =
          [\<lparr>handle = fresh g, set_at = t2, delay = limit - (t2 - t1), bound_args = a2\<rparr>] \<and>
        fst (run_gate limit (Call t1 a1 # Call t2 a2 # calls cs @ [Fire (fresh g) f]) g) =
          [Leading t1 a1, Trailing f a2])"
proof -
  define g where "g = snd (run_gate limit es (new_gate :: 'a gate))"
  define g1 where "g1 = snd (gated limit now a g)"
  have ok: "gate_ok g" unfolding g_def by (rule gate_ok_run) (rule gate_ok_new)
  have ok1: "gate_ok g1" unfolding g1_def using ok by (rule gate_ok_gated)
  have A: "length (filter (\<lambda>t. w \<le> t \<and> t < w + limit)
                (leading_times (fst (run_gate limit es (new_gate :: 'a gate))))) \<le> 1"
    if "sorted (map event_time es)" and "\<forall>e \<in> set es. 0 \<le> event_time e"
  proof -
    from that(2) have "\<forall>e \<in> set es. lastCall (new_gate :: 'a gate) \<le> event_time e"
      by (simp add: new_gate_def)
    from run_spaced[OF that(1) this, of limit] show ?thesis
      by (intro window_one) simp
  qed
  have B: "fst (gated limit now a g) = [] \<and> length (pending g1) = 1 \<and>
        (\<forall>t now'. pending g1 = [t] \<longrightarrow>
           timer_fires (handle t) now' g1 =
             ([Trailing now' (bound_args t)],
              g1\<lparr>pending := [], lastCall := now', timeout := None\<rparr>) \<and>
           (limit - (now' - lastCall g1) \<le> 0 \<longrightarrow>
              gated limit now' b g1 =
                ([Leading now' b], g1\<lparr>pending := [], timeout := None, lastCall := now'\<rparr>)))"
    if inside: "0 < limit - (now - lastCall g)"
  proof -
    have sup: "fst (gated limit now a g) = [] \<and> length (pending g1) = 1"
      using ok
    proof (cases rule: gate_ok_cases)
      case idle
      from gated_schedules[OF ok idle(2) inside, of a] show ?thesis by (simp add: g1_def)
    next
      case (armed t)
      from gated_ignored[OF ok armed(2) inside, of a] armed(2) show ?thesis by (simp add: g1_def)
    qed
    moreover have "timer_fires (handle t) now' g1 =
             ([Trailing now' (bound_args t)],
              g1\<lparr>pending := [], lastCall := now', timeout := None\<rparr>) \<and>
           (limit - (now' - lastCall g1) \<le> 0 \<longrightarrow>
              gated limit now' b g1 =
                ([Leading now' b], g1\<lparr>pending := [], timeout := None, lastCall := now'\<rparr>))"
      if "pending g1 = [t]" for t now'
      using fires_live[OF that, of now'] gated_admits[OF ok1, of limit now' b] by simp
    ultimately show ?thesis by blast
  qed
  have C: "fst (run_gate limit (Call t1 a1 # Call t2 a2 # calls cs) g) = [Leading t1 a1] \<and>
        pending (snd (run_gate limit (Call t1 a1 # Call t2 a2 # calls cs) g)) =
          [\<lparr>handle = fresh g, set_at = t2, delay = limit - (t2 - t1), bound_args = a2\<rparr>] \<and>
        fst (run_gate limit (Call t1 a1 # Call t2 a2 # calls cs @ [Fire (fresh g) f]) g) =
          [Leading t1 a1, Trailing f a2]"
    if adm: "limit - (t1 - lastCall g) \<le> 0"
      and win: "\<forall>c \<in> set ((t2, a2) # cs). fst c < t1 + limit"
  proof -
    note br = burst_run[OF ok adm win, of a1]
    have "Call t1 a1 # Call t2 a2 # calls cs @ [Fire (fresh g) f] =
            (Call t1 a1 # Call t2 a2 # calls cs) @ [Fire (fresh g) f]" by simp
    then have "run_gate limit (Call t1 a1 # Call t2 a2 # calls cs @ [Fire (fresh g) f]) g =
      (case run_gate limit (Call t1 a1 # Call t2 a2 # calls cs) g of
        (out, g') \<Rightarrow> (case run_gate limit [Fire (fresh g) f] g' of (outs, g'') \<Rightarrow> (out @ outs, g'')))"
      by (simp only: run_gate_append)
    then have "fst (run_gate limit (Call t1 a1 # Call t2 a2 # calls cs @ [Fire (fresh g) f]) g) =
          [Leading t1 a1, Trailing f a2]"
      unfolding br by (simp add: timer_fires_def)
    with br show ?thesis by simp
  qed
  from A B C show ?thesis unfolding Let_def g_def g1_def by blast
qed


theorem throttle_window_guarantee_witness:
  "leading_times (fst (run_gate 100
      [Call 1700000000000 ''a'', Call 1700000000010 ''b'', Fire 1 1700000000100,
       Call 1700000000250 ''c''] new_gate)) = [1700000000000, 1700000000250] \<and>
   length (filter (\<lambda>t. 1700000000000 \<le> t \<and> t < 1700000000000 + 100)
     (leading_times (fst (run_gate 100
        [Call 1700000000000 ''a'', Call 1700000000010 ''b'', Fire 1 1700000000100,
         Call 1700000000250 ''c''] new_gate)))) \<le> 1 \<and>
   fst (run_gate 100
         (Call 1700000000000 ''a'' # Call 1700000000010 ''b'' #
          calls [(1700000000020, ''c''), (1700000000030, ''d'')] @ [Fire 1 1700000000100])
         new_gate) =
     [Leading 1700000000000 ''a'', Trailing 1700000000100 ''b'']"
proof -
  let ?E = "[Call 1700000000000 ''a'', Call 1700000000010 ''b'', Fire 1 1700000000100,
             Call 1700000000250 ''c'']"
  have lt: "leading_times (fst (run_gate 100 ?E new_gate)) = [1700000000000, 1700000000250]"
    by (simp add: gate_defs)
  have srt: "sorted (map event_time ?E)" by simp
  have pos: "\<forall>e \<in> set ?E. 0 \<le> event_time e" by simp
  from throttle_window_guarantee[of ?E 1700000000000 100] srt pos
  have a: "length (filter (\<lambda>t. 1700000000000 \<le> t \<and> t < 1700000000000 + 100)
     (leading_times (fst (run_gate 100 ?E new_gate)))) \<le> 1"
    by blast
  have g0: "snd (run_gate 100 [] (new_gate :: string gate)) = new_gate" by simp
  have adm: "(100::int) - (1700000000000 - lastCall (snd (run_gate 100 [] (new_gate :: string gate)))) \<le> 0"
    by (simp add: new_gate_def)
  have win: "\<forall>c \<in> set ((1700000000010::int, ''b'') # [(1700000000020, ''c''), (1700000000030, ''d'')]).
               fst c < 1700000000000 + 100"
    by simp
  have fr': "fresh (new_gate :: string gate) = 1"
    by (simp add: new_gate_def)
  from throttle_window_guarantee[of "[]" _ 100 _ _ _ 1700000000000 1700000000010 "''b''"
      "[(1700000000020, ''c''), (1700000000030, ''d'')]" "''a''" 1700000000100] adm win
  have "fst (run_gate 100
         (Call 1700000000000 ''a'' # Call 1700000000010 ''b'' #
          calls [(1700000000020, ''c''), (1700000000030, ''d'')] @
          [Fire (fresh (snd (run_gate 100 [] (new_gate :: string gate)))) 1700000000100])
         (snd (run_gate 100 [] new_gate))) =
     [Leading 1700000000000 ''a'', Trailing 1700000000100 ''b'']"
    unfolding Let_def by blast
  then have b: "fst (run_gate 100
         (Call 1700000000000 ''a'' # Call 1700000000010 ''b'' #
          calls [(1700000000020, ''c''), (1700000000030, ''d'')] @ [Fire 1 1700000000100])
         new_gate) =
     [Leading 1700000000000 ''a'', Trailing 1700000000100 ''b'']"
    unfolding g0 fr' .
  from lt a b show ?thesis by blast
qed

text \<open>
  The claim as it was stated promises a trailing execution whenever a call was suppressed,
  and one immediate plus one deferred execution for any number of calls. A timer that is
  late is cleared by the next admitted call: of three calls at 0, 10 and 105 ms with a window
  of 100 ms, the second is never run, and no timer stays behind. And a single call makes one
  execution, none deferred.
\<close>

theorem late_timer_is_cancelled_counterexample:
  "run_gate 100 [Call 1700000000000 ''a'', Call 1700000000010 ''b'', Call 1700000000105 ''c'']
     new_gate =
     ([Leading 1700000000000 ''a'', Leading 1700000000105 ''c''],
      \<lparr>lastCall = 1700000000105, timeout = None, pending = [], fresh = 2\<rparr>) \<and>
   run_gate 100 [Call 1700000000000 ''a''] new_gate =
     ([Leading 1700000000000 ''a''],
      \<lparr>lastCall = 1700000000000, timeout = None, pending = [], fresh = 1\<rparr>)"
  by (simp add: gate_defs)

section \<open>The scroll check\<close>



end
